theory Spec2Isabelle
  imports Complex_Main
begin

section \<open>The tableau simplex solver of \<^verbatim>\<open>simplex.py\<close>\<close>

text \<open>
  The class \<^verbatim>\<open>Simplex\<close> keeps one NumPy matrix of floats, the tableau, and pivots it in
  place. The embedding below follows the methods of the class one by one.

  \<^item> Numbers are \<^typ>\<open>real\<close>: a tableau holds finite numbers and the arithmetic on
    them is exact, so the rounding of IEEE doubles and NaN are outside the model. The
    one place where an infinity decides what the code does is the ratio test, where the
    source writes \<^verbatim>\<open>np.inf\<close> itself for an excluded row: there the quotient is a
    \<open>ratio\<close>, finite or infinite, and its overflow to an infinity is modelled.
  \<^item> A two-dimensional array is a list of rows. NumPy arrays are rectangular, which a
    list of lists need not be, so theorems about an arbitrary tableau assume
    \<open>array2d\<close>.
  \<^item> An exception raised by NumPy is a value \<open>Inl e\<close>.
  \<^item> The tableau is mutated in place; the model passes it along and returns it.
  \<^item> \<^verbatim>\<open>verbose\<close> is taken as \<^verbatim>\<open>False\<close> (it only prints). The two messages printed
    regardless of \<^verbatim>\<open>verbose\<close> are kept as the output of \<open>solve\<close>.
\<close>

datatype error = ValueError | IndexError

type_synonym tableau = "real list list"

definition array2d :: "tableau \<Rightarrow> bool" where
  "array2d t \<longleftrightarrow> t \<noteq> [] \<and> hd t \<noteq> [] \<and> list_all (\<lambda>row. length row = length (hd t)) t"

subsection \<open>NumPy primitives\<close>

text \<open>
  \<^verbatim>\<open>np.argmin\<close> and \<^verbatim>\<open>np.argmax\<close> return the index of the first occurrence of the
  extreme value and raise \<^verbatim>\<open>ValueError\<close> on an empty array. \<open>first_best better xs\<close> is
  that index for the strict comparison \<open>better\<close>: the head wins unless some later element
  is strictly better than it. (The tail's \<open>Inl\<close> only says that the tail is empty.)
\<close>

fun first_best :: "('a \<Rightarrow> 'a \<Rightarrow> bool) \<Rightarrow> 'a list \<Rightarrow> error + nat" where
  "first_best better [] = Inl ValueError"
| "first_best better (x # xs) =
     (case first_best better xs of
        Inl _ \<Rightarrow> Inr 0
      | Inr k \<Rightarrow> if better (xs ! k) x then Inr (Suc k) else Inr 0)"

definition np_argmin :: "real list \<Rightarrow> error + nat" where
  "np_argmin xs = first_best (\<lambda>a b. a < b) xs"

definition np_argmax :: "real list \<Rightarrow> error + nat" where
  "np_argmax xs = first_best (\<lambda>a b. b < a) xs"

text \<open>
  A ratio of the ratio test: a finite float, or one of the two infinities of float64.
  \<open>ratio_less\<close> is \<open><\<close> on these values.
\<close>

datatype ratio = NegInf | Finite real | PosInf

fun ratio_less :: "ratio \<Rightarrow> ratio \<Rightarrow> bool" where
  "ratio_less NegInf NegInf = False"
| "ratio_less NegInf (Finite b) = True"
| "ratio_less NegInf PosInf = True"
| "ratio_less (Finite a) NegInf = False"
| "ratio_less (Finite a) (Finite b) = (a < b)"
| "ratio_less (Finite a) PosInf = True"
| "ratio_less PosInf b = False"

definition argmin_ratios :: "ratio list \<Rightarrow> error + nat" where
  "argmin_ratios rs = first_best ratio_less rs"

text \<open>
  The float64 quotient \<^verbatim>\<open>x / y\<close> of two finite numbers, for \<open>y\<close> not zero (under
  \<^verbatim>\<open>np.errstate(divide='ignore', invalid='ignore')\<close> nothing is raised). The largest
  finite double is \<open>2^1024 - 2^971\<close>; rounding to nearest, ties to even, gives an
  infinity from \<open>2^1024 - 2^970\<close> on, in absolute value. Below that bound the quotient is
  taken exact. The bound is written as a hexadecimal numeral, 54 one bits and 970 zero
  bits (lemma \<open>overflow_bound_eq\<close>), so that it evaluates without computing a power.
\<close>

definition overflow_bound :: real where
  "overflow_bound =
     0xFFFFFFFFFFFFFC00000000000000000000000000000000000000000000000000000000000000000000000000000000000000000000000000000000000000000000000000000000000000000000000000000000000000000000000000000000000000000000000000000000000000000000000000000000000000000000000000"

definition np_divide :: "real \<Rightarrow> real \<Rightarrow> ratio" where
  "np_divide x y =
     (let q = x / y
      in if overflow_bound \<le> q then PosInf
         else if q \<le> - overflow_bound then NegInf
         else Finite q)"

subsection \<open>Construction\<close>

text \<open>
  \<^verbatim>\<open>_build_tableau\<close>: \<^verbatim>\<open>np.vstack([np.column_stack([A, b]), np.append(c, 0)])\<close>.
  NumPy raises \<^verbatim>\<open>ValueError\<close> when \<open>A\<close> is ragged or the shapes do not fit. An empty \<open>A\<close>
  is the one-dimensional array of shape \<open>(0,)\<close>, which \<^verbatim>\<open>column_stack\<close> turns into a
  column: with an empty \<open>b\<close> the upper part then has shape \<open>(0, 2)\<close>.
\<close>

definition build_tableau :: "real list \<Rightarrow> real list list \<Rightarrow> real list \<Rightarrow> error + tableau" where
  "build_tableau c A b =
     (if A = [] then
        (if b = [] \<and> length c = 1 then Inr [c @ [0]] else Inl ValueError)
      else if \<not> list_all (\<lambda>row. length row = length (hd A)) A then Inl ValueError
      else if length A \<noteq> length b then Inl ValueError
      else if length (hd A) \<noteq> length c then Inl ValueError
      else Inr (map2 (\<lambda>row bi. row @ [bi]) A b @ [c @ [0]]))"

subsection \<open>Pivot selection\<close>

text \<open>\<^verbatim>\<open>tableau[-1, :-1]\<close>: the objective row without the right-hand side.\<close>

definition obj_row :: "tableau \<Rightarrow> real list" where
  "obj_row t = butlast (last t)"

text \<open>\<^verbatim>\<open>_continue\<close>: \<^verbatim>\<open>np.any(obj_row > 0)\<close>.\<close>

definition continue :: "tableau \<Rightarrow> bool" where
  "continue t = list_ex (\<lambda>x. 0 < x) (obj_row t)"

text \<open>\<^verbatim>\<open>np.where(obj_row > 0)[0]\<close> and \<^verbatim>\<open>obj_row[positive_indices]\<close>.\<close>

definition positive_indices :: "real list \<Rightarrow> nat list" where
  "positive_indices obj = filter (\<lambda>j. 0 < obj ! j) [0..<length obj]"

definition positive_values :: "real list \<Rightarrow> real list" where
  "positive_values obj = map (\<lambda>j. obj ! j) (positive_indices obj)"

text \<open>
  The entering column, \<^verbatim>\<open>positive_indices[np.argmin(positive_values)]\<close>.
\<close>

definition entering_col :: "real list \<Rightarrow> error + nat" where
  "entering_col obj =
     (case np_argmin (positive_values obj) of
        Inl e \<Rightarrow> Inl e
      | Inr k \<Rightarrow> Inr (positive_indices obj ! k))"

text \<open>
  \<^verbatim>\<open>np.where(col > 0, rhs / col, np.inf)\<close> for \<^verbatim>\<open>rhs = tableau[:-1, -1]\<close> and
  \<^verbatim>\<open>col = tableau[:-1, pivot_col]\<close>. A row whose quotient overflows to \<^verbatim>\<open>np.inf\<close>
  gets the same value as an excluded row.
\<close>

definition ratios :: "tableau \<Rightarrow> nat \<Rightarrow> ratio list" where
  "ratios t pivot_col =
     (let rhs = map last (butlast t);
          col = map (\<lambda>row. row ! pivot_col) (butlast t)
      in map2 (\<lambda>a r. if 0 < a then np_divide r a else PosInf) col rhs)"

text \<open>
  \<^verbatim>\<open>_find_pivot\<close> returns a pair whose components may be \<^verbatim>\<open>None\<close>. Its three
  \<^verbatim>\<open>return\<close> statements are \<^verbatim>\<open>None, None\<close>, then \<^verbatim>\<open>pivot_col, None\<close>, then
  \<^verbatim>\<open>pivot_row, pivot_col\<close>, in this order of components.
\<close>

definition find_pivot :: "tableau \<Rightarrow> error + (nat option \<times> nat option)" where
  "find_pivot t =
     (let obj = obj_row t in
      if \<not> list_ex (\<lambda>x. 0 < x) obj then Inr (None, None)
      else case entering_col obj of
             Inl e \<Rightarrow> Inl e
           | Inr pivot_col \<Rightarrow>
               let rs = ratios t pivot_col
               in if list_all (\<lambda>q. q = PosInf) rs then Inr (Some pivot_col, None)
                  else (case argmin_ratios rs of
                          Inl e \<Rightarrow> Inl e
                        | Inr pivot_row \<Rightarrow> Inr (Some pivot_row, Some pivot_col)))"

subsection \<open>Pivot execution\<close>

text \<open>
  The body of \<^verbatim>\<open>_pivot\<close> once both indices are integers: the pivot row is divided by the
  pivot entry, then every other row \<open>i\<close> (selected by the boolean mask) loses its entry in
  the pivot column times the new pivot row. The multipliers are read after the division,
  from rows the division has not touched.
\<close>

definition pivot_at :: "nat \<Rightarrow> nat \<Rightarrow> tableau \<Rightarrow> tableau" where
  "pivot_at pivot_row pivot_col t =
     (let prow = map (\<lambda>x. x / (t ! pivot_row ! pivot_col)) (t ! pivot_row)
      in map (\<lambda>i. if i = pivot_row then prow
                  else map2 (\<lambda>x p. x - (t ! i ! pivot_col) * p) (t ! i) prow)
             [0..<length t])"

text \<open>
  \<^verbatim>\<open>_pivot\<close> calls \<^verbatim>\<open>_find_pivot\<close> itself and unpacks the pair as
  \<^verbatim>\<open>pivot_row, pivot_col\<close>. When the second component is \<^verbatim>\<open>None\<close> the first statement,
  \<^verbatim>\<open>tableau[pivot_row] /= tableau[pivot_row, None]\<close>, raises: \<^verbatim>\<open>IndexError\<close> when
  \<^verbatim>\<open>pivot_row\<close> is not a row of the tableau, otherwise \<^verbatim>\<open>ValueError\<close>, because the
  right-hand side has shape \<open>(1, n+1)\<close> and cannot be broadcast into the row of shape
  \<open>(n+1,)\<close>; the tableau is unchanged. With \<^verbatim>\<open>None, None\<close> the same statement raises
  \<^verbatim>\<open>ValueError\<close>. \<^verbatim>\<open>_find_pivot\<close> never returns \<^verbatim>\<open>None\<close> first with an integer second
  (lemma \<open>find_pivot_cases\<close>), so that case is given the same error.
\<close>

definition pivot :: "tableau \<Rightarrow> error + tableau" where
  "pivot t =
     (case find_pivot t of
        Inl e \<Rightarrow> Inl e
      | Inr (Some pivot_row, Some pivot_col) \<Rightarrow> Inr (pivot_at pivot_row pivot_col t)
      | Inr (Some pivot_row, None) \<Rightarrow>
          if pivot_row < length t then Inl ValueError else Inl IndexError
      | Inr (None, _) \<Rightarrow> Inl ValueError)"

subsection \<open>Solution extraction\<close>

text \<open>The tolerance \<^verbatim>\<open>1e-10\<close>.\<close>

definition tol :: real where
  "tol = 1 / 10 ^ 10"

text \<open>\<^verbatim>\<open>_is_pivot_col\<close>, on a whole column of the tableau (objective row included).\<close>

definition is_pivot_col :: "real list \<Rightarrow> error + bool" where
  "is_pivot_col col =
     (let constraint_part = butlast col;
          nonzero_count = length (filter (\<lambda>x. tol < \<bar>x\<bar>) constraint_part)
      in if nonzero_count \<noteq> 1 then Inr False
         else case np_argmax (map abs constraint_part) of
                Inl e \<Rightarrow> Inl e
              | Inr nonzero_idx \<Rightarrow> Inr (\<bar>constraint_part ! nonzero_idx - 1\<bar> < tol))"

text \<open>\<^verbatim>\<open>tableau[:, j]\<close>.\<close>

definition column :: "tableau \<Rightarrow> nat \<Rightarrow> real list" where
  "column t j = map (\<lambda>row. row ! j) t"

text \<open>
  The loop of \<^verbatim>\<open>_primal_solution\<close> over the columns \<open>js\<close>; the row of the value is
  \<^verbatim>\<open>np.argmax(np.abs(col))\<close> over the whole column.
\<close>

fun primal_cols :: "tableau \<Rightarrow> nat list \<Rightarrow> error + (nat \<times> real) list" where
  "primal_cols t [] = Inr []"
| "primal_cols t (j # js) =
     (case is_pivot_col (column t j) of
        Inl e \<Rightarrow> Inl e
      | Inr False \<Rightarrow> primal_cols t js
      | Inr True \<Rightarrow>
          (case np_argmax (map abs (column t j)) of
             Inl e \<Rightarrow> Inl e
           | Inr pivot_row \<Rightarrow>
               (case primal_cols t js of
                  Inl e \<Rightarrow> Inl e
                | Inr rest \<Rightarrow> Inr ((j, last (t ! pivot_row)) # rest))))"

definition primal_solution :: "tableau \<Rightarrow> error + (nat \<times> real) list" where
  "primal_solution t = primal_cols t [0..<length (hd t) - 1]"

definition objective_value :: "tableau \<Rightarrow> real" where
  "objective_value t = - last (last t)"

subsection \<open>The iteration driver\<close>

datatype message = Unbounded_message | Max_iters_message

text \<open>
  How the \<^verbatim>\<open>while\<close> loop of \<^verbatim>\<open>solve\<close> is left: by the \<^verbatim>\<open>return\<close> inside it, or by its
  condition, with the final counter and tableau.
\<close>

datatype loop_exit = Returned_unbounded tableau | Loop_done nat tableau

function solve_loop :: "int \<Rightarrow> nat \<Rightarrow> tableau \<Rightarrow> error + loop_exit" where
  "solve_loop max_iters iteration t =
     (if continue t \<and> int iteration < max_iters then
        (case find_pivot t of
           Inl e \<Rightarrow> Inl e
         | Inr (None, _) \<Rightarrow> Inr (Returned_unbounded t)
         | Inr (Some _, _) \<Rightarrow>
             (case pivot t of
                Inl e \<Rightarrow> Inl e
              | Inr t' \<Rightarrow> solve_loop max_iters (Suc iteration) t'))
      else Inr (Loop_done iteration t))"
  by pat_completeness auto
termination
  by (relation "measure (\<lambda>(max_iters, iteration, t). nat (max_iters - int iteration))") auto

text \<open>
  What \<^verbatim>\<open>solve\<close> returns: the triple (tableau, solution or \<^verbatim>\<open>None\<close>, objective value or
  \<^verbatim>\<open>None\<close>), and what it has printed.
\<close>

type_synonym solve_result =
  "(tableau \<times> (nat \<times> real) list option \<times> real option) \<times> message list"

definition solve_tableau :: "int \<Rightarrow> tableau \<Rightarrow> error + solve_result" where
  "solve_tableau max_iters t0 =
     (case solve_loop max_iters 0 t0 of
        Inl e \<Rightarrow> Inl e
      | Inr (Returned_unbounded t) \<Rightarrow> Inr ((t, None, None), [Unbounded_message])
      | Inr (Loop_done iteration t) \<Rightarrow>
          (case primal_solution t of
             Inl e \<Rightarrow> Inl e
           | Inr solution \<Rightarrow>
               Inr ((t, Some solution, Some (objective_value t)),
                    if max_iters \<le> int iteration then [Max_iters_message] else [])))"

text \<open>\<^verbatim>\<open>Simplex(c, A, b, max_iters=max_iters).solve()\<close>.\<close>

definition solve :: "real list \<Rightarrow> real list list \<Rightarrow> real list \<Rightarrow> int \<Rightarrow> error + solve_result" where
  "solve c A b max_iters =
     (case build_tableau c A b of
        Inl e \<Rightarrow> Inl e
      | Inr t0 \<Rightarrow> solve_tableau max_iters t0)"

subsection \<open>The states of the loop\<close>

text \<open>
  \<open>visits max_iters (i, t) (i', t')\<close>: the loop of \<^verbatim>\<open>solve\<close>, at its head with counter
  \<open>i\<close> and tableau \<open>t\<close>, comes back to its head with counter \<open>i'\<close> and tableau \<open>t'\<close>
  after some number of complete iterations (each of them one pivot).
\<close>

inductive visits :: "int \<Rightarrow> nat \<times> tableau \<Rightarrow> nat \<times> tableau \<Rightarrow> bool"
  for max_iters :: int where
  visits_here: "visits max_iters (i, t) (i, t)"
| visits_pivot:
    "visits max_iters (i, t) (i', t') \<Longrightarrow> continue t' \<Longrightarrow> int i' < max_iters \<Longrightarrow>
     find_pivot t' = Inr (Some x, y) \<Longrightarrow> pivot t' = Inr t'' \<Longrightarrow>
     visits max_iters (i, t) (Suc i', t'')"

text \<open>Feasibility: the right-hand side of every constraint row is non-negative.\<close>

definition rhs_nonneg :: "tableau \<Rightarrow> bool" where
  "rhs_nonneg t = list_all (\<lambda>row. 0 \<le> last row) (butlast t)"

section \<open>Auxiliary lemmas\<close>

subsection \<open>First extreme element\<close>

lemma first_best_Inl_iff: "first_best better xs = Inl e \<longleftrightarrow> xs = [] \<and> e = ValueError"
  by (cases xs) (auto split: sum.splits)

lemma first_best_nonempty:
  "xs \<noteq> [] \<Longrightarrow> \<exists>k. first_best better xs = Inr k"
  by (cases "first_best better xs") (auto simp: first_best_Inl_iff)

lemma first_best_bound: "first_best better xs = Inr k \<Longrightarrow> k < length xs"
  by (induction xs arbitrary: k) (auto split: sum.splits if_splits)

lemma first_best_before:
  "first_best better xs = Inr k \<Longrightarrow> i < k \<Longrightarrow> better (xs ! k) (xs ! i)"
proof (induction xs arbitrary: k i)
  case Nil
  then show ?case by simp
next
  case (Cons x xs)
  from Cons.prems obtain k' where k': "first_best better xs = Inr k'" "k = Suc k'"
    "better (xs ! k') x"
    by (auto split: sum.splits if_splits)
  show ?case
  proof (cases i)
    case 0
    with k' show ?thesis by simp
  next
    case (Suc i')
    with Cons.prems k' have "i' < k'" by simp
    from Cons.IH [OF k'(1) this] show ?thesis using Suc k' by simp
  qed
qed

lemma first_best_all:
  assumes asym: "\<And>a b. better a b \<Longrightarrow> \<not> better b a"
    and ntrans: "\<And>a b c. \<not> better a b \<Longrightarrow> \<not> better b c \<Longrightarrow> \<not> better a c"
  shows "first_best better xs = Inr k \<Longrightarrow> i < length xs \<Longrightarrow> \<not> better (xs ! i) (xs ! k)"
proof (induction xs arbitrary: k i)
  case Nil
  then show ?case by simp
next
  case (Cons x xs)
  have irrefl: "\<not> better a a" for a using asym by blast
  show ?case
  proof (cases "first_best better xs")
    case (Inl e)
    then have "xs = []" by (simp add: first_best_Inl_iff)
    with Cons.prems show ?thesis by (simp add: irrefl)
  next
    case (Inr k')
    show ?thesis
    proof (cases "better (xs ! k') x")
      case True
      with Inr Cons.prems have k: "k = Suc k'" by simp
      show ?thesis
      proof (cases i)
        case 0
        with k True asym show ?thesis by simp
      next
        case (Suc i')
        with Cons.prems have "i' < length xs" by simp
        from Cons.IH [OF Inr this] show ?thesis using Suc k by simp
      qed
    next
      case False
      with Inr Cons.prems have k: "k = 0" by simp
      show ?thesis
      proof (cases i)
        case 0
        with k show ?thesis by (simp add: irrefl)
      next
        case (Suc i')
        with Cons.prems have "i' < length xs" by simp
        from Cons.IH [OF Inr this] have "\<not> better (xs ! i') (xs ! k')" .
        from ntrans [OF this False] show ?thesis using Suc k by simp
      qed
    qed
  qed
qed

lemma ratio_less_asym: "ratio_less a b \<Longrightarrow> \<not> ratio_less b a"
  by (cases a; cases b) auto

lemma ratio_less_ntrans: "\<not> ratio_less a b \<Longrightarrow> \<not> ratio_less b c \<Longrightarrow> \<not> ratio_less a c"
  by (cases a; cases b; cases c) auto

lemma ratio_less_PosInf: "a \<noteq> PosInf \<Longrightarrow> ratio_less a PosInf"
  by (cases a) auto

lemma overflow_bound_eq: "overflow_bound = 2 ^ 1024 - 2 ^ 970"
  by (simp add: overflow_bound_def)

lemma overflow_bound_pos: "0 < overflow_bound"
  by (simp add: overflow_bound_def)

lemma np_divide_PosInf: "np_divide x y = PosInf \<longleftrightarrow> overflow_bound \<le> x / y"
  by (simp add: np_divide_def Let_def)

lemma np_divide_NegInf: "np_divide x y = NegInf \<longleftrightarrow> x / y \<le> - overflow_bound"
  using overflow_bound_pos by (auto simp: np_divide_def Let_def)

lemma np_divide_Finite:
  "np_divide x y = Finite q \<longleftrightarrow> q = x / y \<and> - overflow_bound < q \<and> q < overflow_bound"
  by (auto simp: np_divide_def Let_def)

lemma np_argmin_least:
  "np_argmin xs = Inr k \<Longrightarrow> i < length xs \<Longrightarrow> xs ! k \<le> xs ! i"
  unfolding np_argmin_def
  using first_best_all [of "\<lambda>a b. a < b" xs k i] by fastforce

lemma np_argmin_before:
  "np_argmin xs = Inr k \<Longrightarrow> i < k \<Longrightarrow> xs ! k < xs ! i"
  unfolding np_argmin_def by (rule first_best_before)

lemma argmin_ratios_least:
  "argmin_ratios rs = Inr k \<Longrightarrow> i < length rs \<Longrightarrow> \<not> ratio_less (rs ! i) (rs ! k)"
  unfolding argmin_ratios_def
  using first_best_all [of ratio_less rs k i] ratio_less_asym ratio_less_ntrans by blast

lemma argmin_ratios_before:
  "argmin_ratios rs = Inr k \<Longrightarrow> i < k \<Longrightarrow> ratio_less (rs ! k) (rs ! i)"
  unfolding argmin_ratios_def by (rule first_best_before)

subsection \<open>The entering column\<close>

lemma positive_indices_set:
  "set (positive_indices obj) = {j. j < length obj \<and> 0 < obj ! j}"
  by (auto simp: positive_indices_def)

lemma positive_indices_sorted:
  "a \<le> b \<Longrightarrow> b < length (positive_indices obj) \<Longrightarrow>
   positive_indices obj ! a \<le> positive_indices obj ! b"
proof -
  have "sorted (positive_indices obj)"
    unfolding positive_indices_def by (rule sorted_wrt_filter) simp
  then show "a \<le> b \<Longrightarrow> b < length (positive_indices obj) \<Longrightarrow>
    positive_indices obj ! a \<le> positive_indices obj ! b"
    by (rule sorted_nth_mono)
qed

lemma entering_col_props:
  assumes "j0 < length obj" and "0 < obj ! j0"
  shows "\<exists>c. entering_col obj = Inr c \<and> c < length obj \<and> 0 < obj ! c \<and>
           (\<forall>j<length obj. 0 < obj ! j \<longrightarrow> obj ! c \<le> obj ! j) \<and>
           (\<forall>j<length obj. obj ! j = obj ! c \<longrightarrow> c \<le> j)"
proof -
  let ?P = "positive_indices obj"
  let ?V = "positive_values obj"
  have len: "length ?V = length ?P" by (simp add: positive_values_def)
  from assms have "j0 \<in> set ?P" by (simp add: positive_indices_set)
  then have "?V \<noteq> []" by (auto simp: positive_values_def)
  then obtain k where k: "np_argmin ?V = Inr k"
    unfolding np_argmin_def using first_best_nonempty by blast
  then have kb: "k < length ?P"
    unfolding np_argmin_def using first_best_bound len by metis
  let ?c = "?P ! k"
  have val: "?V ! i = obj ! (?P ! i)" if "i < length ?P" for i
    using that by (simp add: positive_values_def)
  from kb have "?c \<in> set ?P" by simp
  then have c: "?c < length obj" "0 < obj ! ?c" by (simp_all add: positive_indices_set)
  have least: "obj ! ?c \<le> obj ! j" and first: "obj ! j = obj ! ?c \<longrightarrow> ?c \<le> j"
    if "j < length obj" "0 < obj ! j" for j
  proof -
    from that have "j \<in> set ?P" by (simp add: positive_indices_set)
    then obtain i where i: "i < length ?P" "?P ! i = j" by (auto simp: in_set_conv_nth)
    from np_argmin_least [OF k, of i] i len show "obj ! ?c \<le> obj ! j"
      by (simp add: val kb)
    show "obj ! j = obj ! ?c \<longrightarrow> ?c \<le> j"
    proof
      assume eq: "obj ! j = obj ! ?c"
      have "\<not> i < k"
      proof
        assume "i < k"
        from np_argmin_before [OF k this] have "obj ! ?c < obj ! j"
          using i kb by (simp add: val)
        with eq show False by simp
      qed
      then have "k \<le> i" by simp
      from positive_indices_sorted [OF this i(1)] i show "?c \<le> j" by simp
    qed
  qed
  have "entering_col obj = Inr ?c" by (simp add: entering_col_def k)
  moreover have "\<forall>j<length obj. obj ! j = obj ! ?c \<longrightarrow> ?c \<le> j"
    using first c(2) by simp
  ultimately show ?thesis using c least by blast
qed

subsection \<open>The ratio test and the result of pivot selection\<close>

lemma ratios_length: "length (ratios t c) = length t - 1"
  by (simp add: ratios_def)

lemma ratios_nth:
  "i < length t - 1 \<Longrightarrow>
   ratios t c ! i = (if 0 < t ! i ! c then np_divide (last (t ! i)) (t ! i ! c) else PosInf)"
  by (simp add: ratios_def nth_butlast)

lemma ratios_all_PosInf:
  "list_all (\<lambda>q. q = PosInf) (ratios t c) \<longleftrightarrow>
   (\<forall>i<length t - 1. t ! i ! c \<le> 0 \<or> np_divide (last (t ! i)) (t ! i ! c) = PosInf)"
proof -
  have "list_all (\<lambda>q. q = PosInf) (ratios t c) \<longleftrightarrow>
        (\<forall>i<length (ratios t c). ratios t c ! i = PosInf)"
    by (simp add: list_all_length)
  also have "\<dots> \<longleftrightarrow>
      (\<forall>i<length t - 1. t ! i ! c \<le> 0 \<or> np_divide (last (t ! i)) (t ! i ! c) = PosInf)"
    by (auto simp: ratios_length ratios_nth not_less split: if_splits)
  finally show ?thesis .
qed

lemma continue_iff: "continue t \<longleftrightarrow> (\<exists>j<length (obj_row t). 0 < obj_row t ! j)"
  unfolding continue_def list_ex_iff by (metis in_set_conv_nth)

lemma entering_col_Inr_continue:
  assumes "entering_col (obj_row t) = Inr c"
  shows "continue t"
proof -
  from assms obtain k where k: "np_argmin (positive_values (obj_row t)) = Inr k"
    by (auto simp: entering_col_def split: sum.splits)
  then have "k < length (positive_indices (obj_row t))"
    unfolding np_argmin_def using first_best_bound [of _ "positive_values (obj_row t)" k]
    by (simp add: positive_values_def)
  then have "positive_indices (obj_row t) ! k \<in> set (positive_indices (obj_row t))"
    by simp
  then show ?thesis
    unfolding continue_iff positive_indices_set by blast
qed

lemma find_pivot_optimal: "\<not> continue t \<Longrightarrow> find_pivot t = Inr (None, None)"
  by (simp add: find_pivot_def continue_def)

lemma find_pivot_unbounded:
  assumes "entering_col (obj_row t) = Inr c"
    and "\<forall>i<length t - 1. t ! i ! c \<le> 0 \<or> np_divide (last (t ! i)) (t ! i ! c) = PosInf"
  shows "find_pivot t = Inr (Some c, None)"
proof -
  from assms(1) have "continue t" by (rule entering_col_Inr_continue)
  then have "list_ex (\<lambda>x. 0 < x) (obj_row t)" by (simp add: continue_def)
  moreover from assms(2) have "list_all (\<lambda>q. q = PosInf) (ratios t c)"
    by (simp add: ratios_all_PosInf)
  ultimately show ?thesis using assms(1) by (simp add: find_pivot_def)
qed

lemma find_pivot_leaving:
  assumes ec: "entering_col (obj_row t) = Inr c"
    and pos: "i0 < length t - 1" "0 < t ! i0 ! c"
      "np_divide (last (t ! i0)) (t ! i0 ! c) \<noteq> PosInf"
  shows "\<exists>r. find_pivot t = Inr (Some r, Some c) \<and> r < length t - 1 \<and> 0 < t ! r ! c \<and>
           np_divide (last (t ! r)) (t ! r ! c) \<noteq> PosInf \<and>
           (\<forall>i<length t - 1. 0 < t ! i ! c \<longrightarrow>
              \<not> ratio_less (np_divide (last (t ! i)) (t ! i ! c))
                           (np_divide (last (t ! r)) (t ! r ! c))) \<and>
           (\<forall>i<r. 0 < t ! i ! c \<longrightarrow>
              ratio_less (np_divide (last (t ! r)) (t ! r ! c))
                         (np_divide (last (t ! i)) (t ! i ! c)))"
proof -
  let ?rs = "ratios t c"
  let ?q = "\<lambda>i. np_divide (last (t ! i)) (t ! i ! c)"
  from ec have "continue t" by (rule entering_col_Inr_continue)
  then have ex: "list_ex (\<lambda>x. 0 < x) (obj_row t)" by (simp add: continue_def)
  from pos have notall: "\<not> list_all (\<lambda>q. q = PosInf) ?rs"
    unfolding ratios_all_PosInf by (auto simp: not_le)
  from pos have "?rs \<noteq> []" using ratios_length [of t c] by auto
  then obtain r where r: "argmin_ratios ?rs = Inr r"
    unfolding argmin_ratios_def using first_best_nonempty by blast
  then have rb: "r < length t - 1"
    unfolding argmin_ratios_def using first_best_bound ratios_length by metis
  have fp: "find_pivot t = Inr (Some r, Some c)"
    using ex ec notall r by (simp add: find_pivot_def)
  have i0: "?rs ! i0 = ?q i0"
    using pos by (simp add: ratios_nth)
  have "\<not> ratio_less (?rs ! i0) (?rs ! r)"
    using argmin_ratios_least [OF r] pos(1) by (simp add: ratios_length)
  with i0 pos(3) have fin: "?rs ! r \<noteq> PosInf"
    using ratio_less_PosInf [of "?q i0"] by auto
  then have rpos: "0 < t ! r ! c"
    using rb by (auto simp: ratios_nth split: if_splits)
  then have rr: "?rs ! r = ?q r"
    using rb by (simp add: ratios_nth)
  have least: "\<not> ratio_less (?q i) (?q r)" if "i < length t - 1" "0 < t ! i ! c" for i
  proof -
    have "\<not> ratio_less (?rs ! i) (?rs ! r)"
      using argmin_ratios_least [OF r] that(1) by (simp add: ratios_length)
    then show ?thesis using that rr by (simp add: ratios_nth)
  qed
  have first: "ratio_less (?q r) (?q i)" if "i < r" "0 < t ! i ! c" for i
  proof -
    from that rb have "i < length t - 1" by simp
    moreover have "ratio_less (?rs ! r) (?rs ! i)"
      using argmin_ratios_before [OF r that(1)] .
    ultimately show ?thesis using that rr by (simp add: ratios_nth)
  qed
  from fin rr have "?q r \<noteq> PosInf" by simp
  with fp rb rpos least first show ?thesis by blast
qed

lemma find_pivot_cases:
  "find_pivot t = Inr (None, None) \<and> \<not> continue t \<or>
   (\<exists>c. continue t \<and> entering_col (obj_row t) = Inr c \<and>
      (find_pivot t = Inr (Some c, None) \<and>
         (\<forall>i<length t - 1. t ! i ! c \<le> 0 \<or> np_divide (last (t ! i)) (t ! i ! c) = PosInf) \<or>
       (\<exists>r. find_pivot t = Inr (Some r, Some c) \<and> r < length t - 1 \<and> 0 < t ! r ! c \<and>
          np_divide (last (t ! r)) (t ! r ! c) \<noteq> PosInf)))"
proof (cases "continue t")
  case False
  then show ?thesis by (simp add: find_pivot_optimal)
next
  case True
  then obtain j0 where "j0 < length (obj_row t)" "0 < obj_row t ! j0"
    by (auto simp: continue_iff)
  from entering_col_props [OF this] obtain c where c: "entering_col (obj_row t) = Inr c"
    by blast
  show ?thesis
  proof (cases "\<forall>i<length t - 1. t ! i ! c \<le> 0 \<or>
      np_divide (last (t ! i)) (t ! i ! c) = PosInf")
    case True
    with c find_pivot_unbounded [OF c] \<open>continue t\<close> show ?thesis by blast
  next
    case False
    then obtain i0 where "i0 < length t - 1" "0 < t ! i0 ! c"
      "np_divide (last (t ! i0)) (t ! i0 ! c) \<noteq> PosInf"
      by (auto simp: not_le)
    from find_pivot_leaving [OF c this] c \<open>continue t\<close> show ?thesis by blast
  qed
qed

lemma find_pivot_pair:
  assumes "find_pivot t = Inr (Some r, Some c)"
  shows "continue t \<and> entering_col (obj_row t) = Inr c \<and> r < length t - 1 \<and> 0 < t ! r ! c"
  using find_pivot_cases [of t] assms by auto

lemma find_pivot_pair_finite:
  assumes "find_pivot t = Inr (Some r, Some c)"
  shows "np_divide (last (t ! r)) (t ! r ! c) \<noteq> PosInf"
  using find_pivot_cases [of t] assms by auto

lemma find_pivot_total: "\<exists>p. find_pivot t = Inr p"
  using find_pivot_cases [of t] by blast

subsection \<open>Shape of the tableau and one pivot\<close>

lemma array2d_row_length: "array2d t \<Longrightarrow> i < length t \<Longrightarrow> length (t ! i) = length (hd t)"
  by (simp add: array2d_def list_all_length)

lemma array2d_intro:
  "t \<noteq> [] \<Longrightarrow> 0 < n \<Longrightarrow> (\<And>i. i < length t \<Longrightarrow> length (t ! i) = n) \<Longrightarrow> array2d t"
proof -
  assume ne: "t \<noteq> []" and n: "0 < n" and rows: "\<And>i. i < length t \<Longrightarrow> length (t ! i) = n"
  from ne have "length (hd t) = n" using rows [of 0] by (simp add: hd_conv_nth)
  with ne n rows show "array2d t" by (auto simp: array2d_def list_all_length)
qed

lemma array2d_positive: "array2d t \<Longrightarrow> 0 < length t \<and> 0 < length (hd t)"
  by (simp add: array2d_def)

lemma obj_row_length: "array2d t \<Longrightarrow> length (obj_row t) = length (hd t) - 1"
  by (simp add: obj_row_def last_conv_nth array2d_row_length array2d_def)

lemma obj_row_nth:
  "array2d t \<Longrightarrow> j < length (hd t) - 1 \<Longrightarrow> obj_row t ! j = t ! (length t - 1) ! j"
  by (simp add: obj_row_def last_conv_nth array2d_row_length array2d_def nth_butlast)

lemma last_row: "array2d t \<Longrightarrow> i < length t \<Longrightarrow> last (t ! i) = t ! i ! (length (hd t) - 1)"
  by (metis array2d_positive array2d_row_length last_conv_nth length_greater_0_conv)

lemma pivot_at_length: "length (pivot_at r c t) = length t"
  by (simp add: pivot_at_def Let_def)

lemma pivot_at_row_length:
  assumes "array2d t" "r < length t" "i < length t"
  shows "length (pivot_at r c t ! i) = length (hd t)"
  using assms by (simp add: pivot_at_def Let_def array2d_row_length)

lemma pivot_at_entry:
  assumes "array2d t" "r < length t" "i < length t" "j < length (hd t)"
  shows "pivot_at r c t ! i ! j =
           (if i = r then t ! r ! j / (t ! r ! c)
            else t ! i ! j - (t ! i ! c) * (t ! r ! j / (t ! r ! c)))"
  using assms by (simp add: pivot_at_def Let_def array2d_row_length)

lemma pivot_at_array2d:
  assumes "array2d t" "r < length t"
  shows "array2d (pivot_at r c t)" and "length (hd (pivot_at r c t)) = length (hd t)"
proof -
  from assms have ne: "pivot_at r c t \<noteq> []"
    using pivot_at_length [of r c t] by (auto simp: array2d_def)
  from assms(1) have pos: "0 < length (hd t)" by (simp add: array2d_def)
  have rows: "length (pivot_at r c t ! i) = length (hd t)" if "i < length (pivot_at r c t)" for i
    using that assms by (simp add: pivot_at_length pivot_at_row_length)
  from ne pos rows show "array2d (pivot_at r c t)" by (rule array2d_intro)
  from ne rows [of 0] show "length (hd (pivot_at r c t)) = length (hd t)"
    by (simp add: hd_conv_nth)
qed

lemma pivot_at_last:
  assumes "array2d t" "r < length t" "i < length t"
  shows "last (pivot_at r c t ! i) =
           (if i = r then last (t ! r) / (t ! r ! c)
            else last (t ! i) - (t ! i ! c) * (last (t ! r) / (t ! r ! c)))"
proof -
  let ?n = "length (hd t) - 1"
  have n: "?n < length (hd t)" using assms(1) by (simp add: array2d_def)
  have "last (pivot_at r c t ! i) = pivot_at r c t ! i ! ?n"
    using last_row [OF pivot_at_array2d(1) [OF assms(1,2)], of i c] assms
    by (simp add: pivot_at_length pivot_at_array2d(2))
  also have "\<dots> = (if i = r then t ! r ! ?n / (t ! r ! c)
            else t ! i ! ?n - (t ! i ! c) * (t ! r ! ?n / (t ! r ! c)))"
    using assms n by (rule pivot_at_entry)
  finally show ?thesis using assms by (simp add: last_row)
qed

lemma pivot_pair: "find_pivot t = Inr (Some r, Some c) \<Longrightarrow> pivot t = Inr (pivot_at r c t)"
  by (simp add: pivot_def)

lemma find_pivot_min_ratio:
  assumes fp: "find_pivot t = Inr (Some r, Some c)"
    and i: "i < length t - 1" "0 < t ! i ! c"
    and br: "0 \<le> last (t ! r)"
  shows "last (t ! r) / (t ! r ! c) \<le> last (t ! i) / (t ! i ! c)"
proof -
  let ?q = "\<lambda>i. last (t ! i) / (t ! i ! c)"
  from find_pivot_pair [OF fp] have ec: "entering_col (obj_row t) = Inr c"
    and r: "r < length t - 1" "0 < t ! r ! c" by simp_all
  from find_pivot_pair_finite [OF fp] have fin: "np_divide (last (t ! r)) (t ! r ! c) \<noteq> PosInf" .
  from find_pivot_leaving [OF ec r fin] fp i
  have least: "\<not> ratio_less (np_divide (last (t ! i)) (t ! i ! c))
                            (np_divide (last (t ! r)) (t ! r ! c))"
    by auto
  from br r(2) have "0 \<le> ?q r" by simp
  with overflow_bound_pos have "\<not> ?q r \<le> - overflow_bound" by simp
  with fin have qr: "np_divide (last (t ! r)) (t ! r ! c) = Finite (?q r)"
    and small: "?q r < overflow_bound"
    by (simp_all add: np_divide_def Let_def split: if_splits)
  show ?thesis
  proof (cases "np_divide (last (t ! i)) (t ! i ! c)")
    case NegInf
    with least qr show ?thesis by simp
  next
    case (Finite q)
    then have "q = ?q i" by (simp add: np_divide_Finite)
    with least qr Finite show ?thesis by simp
  next
    case PosInf
    then have "overflow_bound \<le> ?q i" by (simp add: np_divide_PosInf)
    with small show ?thesis by simp
  qed
qed

lemma rhs_nonneg_iff: "rhs_nonneg t \<longleftrightarrow> (\<forall>i<length t - 1. 0 \<le> last (t ! i))"
  by (simp add: rhs_nonneg_def list_all_length nth_butlast)

lemma pivot_at_rhs_nonneg:
  assumes a: "array2d t" and f: "rhs_nonneg t" and fp: "find_pivot t = Inr (Some r, Some c)"
  shows "rhs_nonneg (pivot_at r c t)"
  unfolding rhs_nonneg_iff pivot_at_length
proof (intro allI impI)
  fix i assume i: "i < length t - 1"
  from find_pivot_pair [OF fp] have r: "r < length t - 1" and p: "0 < t ! r ! c" by simp_all
  from f r have br: "0 \<le> last (t ! r)" by (simp add: rhs_nonneg_iff)
  from f i have bi: "0 \<le> last (t ! i)" by (simp add: rhs_nonneg_iff)
  let ?q = "last (t ! r) / (t ! r ! c)"
  from br p have q: "0 \<le> ?q" by simp
  from i r have lt: "i < length t" "r < length t" by simp_all
  show "0 \<le> last (pivot_at r c t ! i)"
  proof (cases "i = r")
    case True
    with q a lt show ?thesis by (simp add: pivot_at_last)
  next
    case False
    have "t ! i ! c * ?q \<le> last (t ! i)"
    proof (cases "0 < t ! i ! c")
      case True
      from find_pivot_min_ratio [OF fp i True br] have "?q \<le> last (t ! i) / (t ! i ! c)" .
      then have "?q * (t ! i ! c) \<le> last (t ! i)"
        using pos_le_divide_eq [OF True, of ?q "last (t ! i)"] by simp
      then show ?thesis by (simp only: mult.commute)
    next
      case False
      then have "t ! i ! c * ?q \<le> 0" using q by (intro mult_nonpos_nonneg) simp_all
      with bi show ?thesis by simp
    qed
    with False a lt show ?thesis by (simp add: pivot_at_last)
  qed
qed

lemma entering_col_positive:
  assumes "entering_col obj = Inr c"
  shows "c < length obj \<and> 0 < obj ! c"
proof -
  from assms obtain k where k: "np_argmin (positive_values obj) = Inr k"
    and c: "c = positive_indices obj ! k"
    by (auto simp: entering_col_def split: sum.splits)
  from k have "k < length (positive_indices obj)"
    unfolding np_argmin_def using first_best_bound [of _ "positive_values obj" k]
    by (simp add: positive_values_def)
  then have "c \<in> set (positive_indices obj)" using c by simp
  then show ?thesis by (simp add: positive_indices_set)
qed

lemma pivot_at_objective:
  assumes a: "array2d t" and f: "rhs_nonneg t" and fp: "find_pivot t = Inr (Some r, Some c)"
  shows "objective_value t \<le> objective_value (pivot_at r c t)"
proof -
  let ?m = "length t - 1"
  from find_pivot_pair [OF fp] have r: "r < ?m" and p: "0 < t ! r ! c"
    and ec: "entering_col (obj_row t) = Inr c" by simp_all
  from entering_col_positive [OF ec] have c: "c < length (obj_row t)" "0 < obj_row t ! c"
    by simp_all
  with a have oc: "0 < t ! ?m ! c" by (simp add: obj_row_length obj_row_nth)
  from f r have "0 \<le> last (t ! r)" by (simp add: rhs_nonneg_iff)
  with p have q: "0 \<le> last (t ! r) / (t ! r ! c)" by simp
  from a have ne: "t \<noteq> []" by (simp add: array2d_def)
  from r have m: "?m < length t" "r < length t" "?m \<noteq> r" by simp_all
  have "pivot_at r c t \<noteq> []" using ne pivot_at_length [of r c t] by auto
  then have "last (pivot_at r c t) = pivot_at r c t ! ?m"
    by (simp add: last_conv_nth pivot_at_length)
  then have "last (last (pivot_at r c t)) =
      last (t ! ?m) - (t ! ?m ! c) * (last (t ! r) / (t ! r ! c))"
    using a m by (simp add: pivot_at_last)
  moreover have "last t = t ! ?m" using ne by (simp add: last_conv_nth)
  moreover have "0 \<le> (t ! ?m ! c) * (last (t ! r) / (t ! r ! c))"
    using oc q by (intro mult_nonneg_nonneg) simp_all
  ultimately show ?thesis by (simp add: objective_value_def)
qed

subsection \<open>Construction and the loop\<close>

lemma build_tableau_array2d:
  assumes "build_tableau c A b = Inr t0"
  shows "array2d t0"
proof (cases "A = []")
  case True
  with assms have "t0 = [c @ [0]]" by (simp add: build_tableau_def split: if_splits)
  then show ?thesis by (simp add: array2d_def)
next
  case False
  with assms have t0: "t0 = map2 (\<lambda>row bi. row @ [bi]) A b @ [c @ [0]]"
    and rows: "list_all (\<lambda>row. length row = length (hd A)) A"
    and len: "length A = length b" "length (hd A) = length c"
    by (simp_all add: build_tableau_def split: if_splits)
  have "length (t0 ! i) = Suc (length c)" if "i < length t0" for i
  proof (cases "i < length A")
    case True
    with rows have "length (A ! i) = length c" by (simp add: list_all_length len)
    with True show ?thesis by (simp add: t0 nth_append len)
  next
    case False
    with that have "i = length A" by (simp add: t0 len)
    then show ?thesis by (simp add: t0 nth_append len)
  qed
  moreover have "t0 \<noteq> []" by (simp add: t0)
  ultimately show ?thesis using array2d_intro [of t0 "Suc (length c)"] by simp
qed

lemma build_tableau_rhs_nonneg:
  assumes "build_tableau c A b = Inr t0" and "list_all (\<lambda>x. 0 \<le> x) b"
  shows "rhs_nonneg t0"
proof (cases "A = []")
  case True
  with assms have "t0 = [c @ [0]]" by (simp add: build_tableau_def split: if_splits)
  then show ?thesis by (simp add: rhs_nonneg_def)
next
  case False
  with assms have t0: "t0 = map2 (\<lambda>row bi. row @ [bi]) A b @ [c @ [0]]"
    and len: "length A = length b"
    by (simp_all add: build_tableau_def split: if_splits)
  have "butlast t0 = map2 (\<lambda>row bi. row @ [bi]) A b" by (simp add: t0)
  then show ?thesis using assms(2) len
    by (simp add: rhs_nonneg_def list_all_length)
qed

lemma pivot_Inr:
  assumes "pivot t = Inr t'"
  shows "\<exists>r c. find_pivot t = Inr (Some r, Some c) \<and> t' = pivot_at r c t"
  using assms by (auto simp: pivot_def split: sum.splits option.splits if_splits)

lemma visits_invariant:
  assumes "visits max_iters s s'" and "array2d (snd s)" and "rhs_nonneg (snd s)"
  shows "array2d (snd s') \<and> rhs_nonneg (snd s')"
  using assms
proof (induction rule: visits.induct)
  case (visits_here i t)
  then show ?case by simp
next
  case (visits_pivot i t i' t' x y t'')
  then have a: "array2d t'" and f: "rhs_nonneg t'" by simp_all
  from pivot_Inr [OF visits_pivot.hyps(5)] obtain r c
    where fp: "find_pivot t' = Inr (Some r, Some c)" and t'': "t'' = pivot_at r c t'"
    by blast
  from find_pivot_pair [OF fp] have "r < length t'" by auto
  with a have "array2d t''" unfolding t'' by (rule pivot_at_array2d(1))
  moreover from a f fp have "rhs_nonneg t''" unfolding t'' by (rule pivot_at_rhs_nonneg)
  ultimately show ?case by simp
qed

lemma visits_objective:
  assumes "visits max_iters s s'" and "array2d (snd s)" and "rhs_nonneg (snd s)"
  shows "objective_value (snd s) \<le> objective_value (snd s')"
  using assms
proof (induction rule: visits.induct)
  case (visits_here i t)
  then show ?case by simp
next
  case (visits_pivot i t i' t' x y t'')
  from visits_invariant [OF visits_pivot.hyps(1)] visits_pivot.prems
  have a: "array2d t'" and f: "rhs_nonneg t'" by simp_all
  from pivot_Inr [OF visits_pivot.hyps(5)] obtain r c
    where fp: "find_pivot t' = Inr (Some r, Some c)" and t'': "t'' = pivot_at r c t'"
    by blast
  from a f fp have "objective_value t' \<le> objective_value t''"
    unfolding t'' by (rule pivot_at_objective)
  with visits_pivot.IH visits_pivot.prems show ?case by simp
qed

lemma solve_loop_visits:
  assumes "visits max_iters s s'"
  shows "solve_loop max_iters (fst s) (snd s) = solve_loop max_iters (fst s') (snd s')"
  using assms
proof (induction rule: visits.induct)
  case (visits_here i t)
  show ?case by simp
next
  case (visits_pivot i t i' t' x y t'')
  have "solve_loop max_iters i' t' = solve_loop max_iters (Suc i') t''"
    using visits_pivot.hyps(2-5) by (subst solve_loop.simps) simp
  with visits_pivot.IH show ?case by simp
qed

lemma solve_loop_done:
  "solve_loop max_iters i t = Inr (Loop_done i' t') \<Longrightarrow> \<not> continue t' \<or> max_iters \<le> int i'"
proof (induction max_iters i t rule: solve_loop.induct)
  case (1 max_iters iteration t)
  show ?case
  proof (cases "continue t \<and> int iteration < max_iters")
    case False
    with "1.prems" have "i' = iteration" "t' = t" by (simp_all add: solve_loop.simps [of max_iters iteration t])
    with False show ?thesis by auto
  next
    case True
    with "1.prems" obtain x y t2 where fp: "find_pivot t = Inr (Some x, y)"
      and pv: "pivot t = Inr t2"
      and rec: "solve_loop max_iters (Suc iteration) t2 = Inr (Loop_done i' t')"
      by (subst (asm) solve_loop.simps) (auto split: sum.splits option.splits prod.splits)
    from "1.IH" [OF True fp refl refl pv rec] show ?thesis .
  qed
qed

lemma solve_loop_unbounded_raises:
  assumes "continue t" "int i < max_iters" "find_pivot t = Inr (Some c, None)"
  shows "solve_loop max_iters i t = Inl (if c < length t then ValueError else IndexError)"
  using assms by (subst solve_loop.simps) (simp add: pivot_def)

lemma find_pivot_continue:
  assumes "continue t"
  shows "\<exists>x y. find_pivot t = Inr (Some x, y)"
  using find_pivot_cases [of t] assms by auto

lemma solve_loop_never_returns_unbounded:
  "solve_loop max_iters i t \<noteq> Inr (Returned_unbounded t')"
proof (induction max_iters i t rule: solve_loop.induct)
  case (1 max_iters iteration t)
  show ?case
  proof (cases "continue t \<and> int iteration < max_iters")
    case False
    then show ?thesis by (subst solve_loop.simps) auto
  next
    case True
    then obtain x y where fp: "find_pivot t = Inr (Some x, y)"
      using find_pivot_continue by blast
    show ?thesis
    proof (cases "pivot t")
      case (Inl e)
      with True fp show ?thesis by (subst solve_loop.simps) simp
    next
      case (Inr t2)
      from "1.IH" [OF True fp refl refl Inr]
      have "solve_loop max_iters (Suc iteration) t2 \<noteq> Inr (Returned_unbounded t')" .
      with True fp Inr show ?thesis by (subst solve_loop.simps) simp
    qed
  qed
qed

subsection \<open>Solution extraction\<close>

lemma primal_cols_columns:
  "primal_cols t js = Inr sol \<Longrightarrow>
   map fst sol = filter (\<lambda>j. is_pivot_col (column t j) = Inr True) js"
proof (induction js arbitrary: sol)
  case Nil
  then show ?case by simp
next
  case (Cons j js)
  show ?case
  proof (cases "is_pivot_col (column t j)")
    case (Inl e)
    with Cons.prems show ?thesis by simp
  next
    case (Inr basic)
    show ?thesis
    proof (cases basic)
      case False
      with Inr Cons show ?thesis by simp
    next
      case True
      with Inr Cons.prems obtain r rest where "primal_cols t js = Inr rest"
        "sol = (j, last (t ! r)) # rest"
        by (auto split: sum.splits)
      with Cons.IH [of rest] Inr True show ?thesis by simp
    qed
  qed
qed

subsection \<open>The exit of the loop and totality of the extraction\<close>

lemma visits_first_aux:
  assumes "visits max_iters s s'"
  shows "s = (Suc i, t2) \<Longrightarrow> continue t \<Longrightarrow> int i < max_iters \<Longrightarrow>
         find_pivot t = Inr (Some x, y) \<Longrightarrow> pivot t = Inr t2 \<Longrightarrow> visits max_iters (i, t) s'"
  using assms
proof (induction rule: visits.induct)
  case (visits_here i0 t0)
  then have "visits max_iters (i, t) (Suc i, t2)"
    by (intro visits_pivot [OF visits.visits_here])
  with visits_here.prems(1) show ?case by simp
next
  case (visits_pivot i0 t0 i' t' x' y' t'')
  from visits_pivot.IH [OF visits_pivot.prems]
  have "visits max_iters (i, t) (i', t')" .
  then show ?case using visits_pivot.hyps(2-5) by (rule visits.visits_pivot)
qed

lemma visits_first:
  assumes "visits max_iters (Suc i, t2) s'"
    and "continue t" "int i < max_iters" "find_pivot t = Inr (Some x, y)" "pivot t = Inr t2"
  shows "visits max_iters (i, t) s'"
  using visits_first_aux [OF assms(1) refl assms(2-5)] .

lemma solve_loop_done_visits:
  "solve_loop max_iters i t = Inr (Loop_done i' t') \<Longrightarrow> visits max_iters (i, t) (i', t')"
proof (induction max_iters i t rule: solve_loop.induct)
  case (1 max_iters iteration t)
  show ?case
  proof (cases "continue t \<and> int iteration < max_iters")
    case False
    with "1.prems" have "i' = iteration" "t' = t"
      by (simp_all add: solve_loop.simps [of max_iters iteration t])
    then show ?thesis by (simp add: visits_here)
  next
    case True
    with "1.prems" obtain x y t2 where fp: "find_pivot t = Inr (Some x, y)"
      and pv: "pivot t = Inr t2"
      and rec: "solve_loop max_iters (Suc iteration) t2 = Inr (Loop_done i' t')"
      by (subst (asm) solve_loop.simps) (auto split: sum.splits option.splits prod.splits)
    from "1.IH" [OF True fp refl refl pv rec]
    have "visits max_iters (Suc iteration, t2) (i', t')" .
    then show ?thesis using True fp pv by (auto intro: visits_first)
  qed
qed

lemma np_argmax_nonempty: "xs \<noteq> [] \<Longrightarrow> \<exists>k. np_argmax xs = Inr k"
  unfolding np_argmax_def by (rule first_best_nonempty)

lemma is_pivot_col_total: "\<exists>basic. is_pivot_col col = Inr basic"
proof (cases "length (filter (\<lambda>x. tol < \<bar>x\<bar>) (butlast col)) = 1")
  case False
  then have "is_pivot_col col = Inr False" by (simp add: is_pivot_col_def)
  then show ?thesis by blast
next
  case True
  then have "butlast col \<noteq> []" by auto
  then have "map abs (butlast col) \<noteq> []" by simp
  from np_argmax_nonempty [OF this] obtain k where "np_argmax (map abs (butlast col)) = Inr k"
    by blast
  with True show ?thesis by (simp add: is_pivot_col_def)
qed

lemma primal_cols_total:
  assumes "t \<noteq> []"
  shows "\<exists>sol. primal_cols t js = Inr sol"
proof (induction js)
  case Nil
  show ?case by simp
next
  case (Cons j js)
  from assms have "map abs (column t j) \<noteq> []" by (simp add: column_def)
  from np_argmax_nonempty [OF this] obtain r where r: "np_argmax (map abs (column t j)) = Inr r"
    by blast
  from is_pivot_col_total obtain basic where b: "is_pivot_col (column t j) = Inr basic"
    by blast
  from Cons.IH obtain rest where "primal_cols t js = Inr rest" by blast
  with r b show ?case by (cases basic) simp_all
qed

lemma primal_solution_total: "array2d t \<Longrightarrow> \<exists>sol. primal_solution t = Inr sol"
  unfolding primal_solution_def by (rule primal_cols_total) (simp add: array2d_def)

lemma solve_raises_on_unbounded_signal:
  assumes "visits max_iters (i, t) (k, t')"
    and "continue t'" "int k < max_iters" "find_pivot t' = Inr (Some c, None)"
  shows "solve_loop max_iters i t = Inl (if c < length t' then ValueError else IndexError)"
  using solve_loop_visits [OF assms(1)] solve_loop_unbounded_raises [OF assms(2-4)] by simp

section \<open>The claims\<close>

subsection \<open>C1: the unbounded signal\<close>

text \<open>
  Claim C1: when pivot selection signals unboundedness, \<^verbatim>\<open>solve\<close> stops at once and
  returns \<^verbatim>\<open>(tableau, None, None)\<close>. The source does not: \<^verbatim>\<open>_find_pivot\<close> returns
  \<^verbatim>\<open>pivot_col, None\<close> for the signal, \<^verbatim>\<open>solve\<close> unpacks the pair as
  \<^verbatim>\<open>pivot_row, pivot_col\<close> and tests \<^verbatim>\<open>pivot_row is None\<close>, which is false, and goes on to
  \<^verbatim>\<open>_pivot\<close>, whose first statement raises. On the unbounded scenario \<open>c = [1]\<close>,
  \<open>A = [[-1]]\<close>, \<open>b = [5]\<close> pivot selection gives the signal and \<^verbatim>\<open>solve\<close> ends in
  \<^verbatim>\<open>ValueError\<close>. (Lemmas \<open>solve_raises_on_unbounded_signal\<close> and
  \<open>solve_loop_never_returns_unbounded\<close> say the same of every tableau.)
\<close>

theorem unbounded_scenario_raises:
  "find_pivot [[- 1, 5], [1, 0]] = Inr (Some 0, None) \<and>
   solve [1] [[- 1]] [5] 1000 = Inl ValueError"
  by code_simp

subsection \<open>C2: the trivial optimal scenario\<close>

text \<open>
  Claim C2, as the source has it: for \<open>c = [-1]\<close>, \<open>A = [[1]]\<close>, \<open>b = [5]\<close> the loop of
  \<^verbatim>\<open>solve\<close> is left at once with counter 0 and the tableau as built (no pivot), the
  objective value is 0, nothing is printed, and the solution list is \<open>[(0, 5)]\<close>: column 0
  has the single constraint entry 1, so it passes \<^verbatim>\<open>_is_pivot_col\<close> and is listed with
  the right-hand side of its row. The list is not empty, as the claim has it.
\<close>

theorem trivial_scenario:
  "build_tableau [- 1] [[1]] [5] = Inr [[1, 5], [- 1, 0]] \<and>
   solve_loop 1000 0 [[1, 5], [- 1, 0]] = Inr (Loop_done 0 [[1, 5], [- 1, 0]]) \<and>
   solve [- 1] [[1]] [5] 1000 = Inr (([[1, 5], [- 1, 0]], Some [(0, 5)], Some 0), [])"
  by code_simp

text \<open>
  The solution returned for that input is a list (the call does not raise and the second
  component is not \<^verbatim>\<open>None\<close>), and it is not the empty list.
\<close>

theorem trivial_scenario_solution_not_empty:
  "\<not> isl (solve [- 1] [[1]] [5] 1000) \<and>
   fst (snd (fst (projr (solve [- 1] [[1]] [5] 1000)))) \<noteq> Some []"
  by code_simp

subsection \<open>C3: the entering column\<close>

text \<open>
  Claim C3: when some entry of the objective row (right-hand side excluded) is strictly
  positive, pivot selection takes as entering column a column \<open>c\<close> with a strictly
  positive objective entry that is smallest among the strictly positive entries; no
  column before \<open>c\<close> has the same entry. \<^verbatim>\<open>_find_pivot\<close> returns this column, as the
  first component of the unboundedness signal or as the second of a pivot pair.
\<close>

theorem entering_column_smallest_positive:
  assumes "\<exists>j<length (obj_row t). 0 < obj_row t ! j"
  shows "\<exists>c. entering_col (obj_row t) = Inr c \<and>
           (find_pivot t = Inr (Some c, None) \<or> (\<exists>r. find_pivot t = Inr (Some r, Some c))) \<and>
           c < length (obj_row t) \<and> 0 < obj_row t ! c \<and>
           (\<forall>j<length (obj_row t). 0 < obj_row t ! j \<longrightarrow> obj_row t ! c \<le> obj_row t ! j) \<and>
           (\<forall>j<length (obj_row t). obj_row t ! j = obj_row t ! c \<longrightarrow> c \<le> j)"
proof -
  from assms obtain j0 where "j0 < length (obj_row t)" "0 < obj_row t ! j0" by blast
  from entering_col_props [OF this] obtain c where c: "entering_col (obj_row t) = Inr c"
    "c < length (obj_row t)" "0 < obj_row t ! c"
    "\<forall>j<length (obj_row t). 0 < obj_row t ! j \<longrightarrow> obj_row t ! c \<le> obj_row t ! j"
    "\<forall>j<length (obj_row t). obj_row t ! j = obj_row t ! c \<longrightarrow> c \<le> j"
    by blast
  have "find_pivot t = Inr (Some c, None) \<or> (\<exists>r. find_pivot t = Inr (Some r, Some c))"
    using find_pivot_cases [of t] c(1) entering_col_Inr_continue [OF c(1)] by auto
  with c show ?thesis by blast
qed


theorem entering_column_smallest_positive_witness:
  "(\<exists>j<length (obj_row [[1, 1, 1, 4], [3, 2, 2, 0]]). 0 < obj_row [[1, 1, 1, 4], [3, 2, 2, 0]] ! j) \<and>
   entering_col (obj_row [[1, 1, 1, 4], [3, 2, 2, 0]]) = Inr 1 \<and>
   (\<exists>c. entering_col (obj_row [[1, 1, 1, 4], [3, 2, 2, 0]]) = Inr c \<and>
      (\<forall>j<length (obj_row [[1, 1, 1, 4], [3, 2, 2, 0]]).
         obj_row [[1, 1, 1, 4], [3, 2, 2, 0]] ! j = obj_row [[1, 1, 1, 4], [3, 2, 2, 0]] ! c
         \<longrightarrow> c \<le> j))"
proof -
  let ?t = "[[1, 1, 1, 4], [3, 2, 2, 0]] :: tableau"
  have "(0::nat) < length (obj_row ?t) \<and> 0 < obj_row ?t ! 0" by (simp add: obj_row_def)
  then have h: "\<exists>j<length (obj_row ?t). 0 < obj_row ?t ! j" by blast
  have e: "entering_col (obj_row ?t) = Inr 1" by code_simp
  from entering_column_smallest_positive [OF h] h e show ?thesis by blast
qed

subsection \<open>C4: the leaving row\<close>




subsection \<open>C5: pivot execution\<close>

text \<open>
  Claim C5: for a pivot position \<open>(r, c)\<close> with a non-zero entry, pivot execution keeps
  the shape of the tableau; row \<open>r\<close> becomes the old row \<open>r\<close> divided entry by entry by
  the old pivot entry, so that entry \<open>(r, c)\<close> is 1; every other row \<open>i\<close>, the objective
  row included, becomes the old row \<open>i\<close> minus its old entry in column \<open>c\<close> times the new
  row \<open>r\<close>, so that entry \<open>(i, c)\<close> is 0.
\<close>

theorem pivot_rows:
  assumes "array2d t" and "r < length t" and "c < length (hd t)" and "t ! r ! c \<noteq> 0"
  shows "length (pivot_at r c t) = length t \<and>
         (\<forall>i<length t. length (pivot_at r c t ! i) = length (hd t)) \<and>
         (\<forall>j<length (hd t). pivot_at r c t ! r ! j = t ! r ! j / (t ! r ! c)) \<and>
         pivot_at r c t ! r ! c = 1 \<and>
         (\<forall>i<length t. i \<noteq> r \<longrightarrow>
            (\<forall>j<length (hd t).
               pivot_at r c t ! i ! j = t ! i ! j - (t ! i ! c) * (pivot_at r c t ! r ! j)) \<and>
            pivot_at r c t ! i ! c = 0)"
proof -
  have row: "pivot_at r c t ! r ! j = t ! r ! j / (t ! r ! c)" if "j < length (hd t)" for j
    using assms(1,2) that by (simp add: pivot_at_entry)
  have other: "pivot_at r c t ! i ! j = t ! i ! j - (t ! i ! c) * (pivot_at r c t ! r ! j)"
    if "i < length t" "i \<noteq> r" "j < length (hd t)" for i j
    using assms(1,2) that by (simp add: pivot_at_entry)
  have one: "pivot_at r c t ! r ! c = 1"
    using row [OF assms(3)] assms(4) by simp
  have zero: "pivot_at r c t ! i ! c = 0" if "i < length t" "i \<noteq> r" for i
    using other [OF that assms(3)] one by simp
  have len: "length (pivot_at r c t ! i) = length (hd t)" if "i < length t" for i
    using assms(1,2) that by (rule pivot_at_row_length)
  from row other one zero len show ?thesis by (simp add: pivot_at_length)
qed


theorem pivot_rows_witness:
  "array2d [[2, 8], [- 1, 3], [1, 4], [1, 0]] \<and>
   (0::nat) < length [[2, 8], [- 1, 3], [1, 4], [1, 0 :: real]] \<and>
   (0::nat) < length (hd [[2, 8], [- 1, 3], [1, 4], [1, 0 :: real]]) \<and>
   [[2, 8], [- 1, 3], [1, 4], [1, 0 :: real]] ! 0 ! 0 \<noteq> 0 \<and>
   pivot_at 0 0 [[2, 8], [- 1, 3], [1, 4], [1, 0]] ! 0 ! 0 = 1 \<and>
   pivot_at 0 0 [[2, 8], [- 1, 3], [1, 4], [1, 0]] = [[1, 4], [0, 7], [0, 0], [0, - 4]]"
proof -
  let ?t = "[[2, 8], [- 1, 3], [1, 4], [1, 0]] :: tableau"
  have a: "array2d ?t" by (simp add: array2d_def)
  have r: "0 < length ?t" and c: "0 < length (hd ?t)" and p: "?t ! 0 ! 0 \<noteq> 0" by simp_all
  have v: "pivot_at 0 0 ?t = [[1, 4], [0, 7], [0, 0], [0, - 4]]" by code_simp
  from pivot_rows [OF a r c p] a r c p v show ?thesis by simp
qed

subsection \<open>C6: feasibility is invariant\<close>

text \<open>
  Claim C6: for an input whose \<open>b\<close> has no negative entry, in every state the loop of
  \<^verbatim>\<open>solve\<close> reaches (after any number of pivots) the right-hand side of every
  constraint row is non-negative.
\<close>

theorem feasibility_invariant:
  assumes "build_tableau c A b = Inr t0" and "list_all (\<lambda>x. 0 \<le> x) b"
    and "visits max_iters (0, t0) (k, t)"
  shows "\<forall>i<length t - 1. 0 \<le> last (t ! i)"
proof -
  from assms(1) have "array2d t0" by (rule build_tableau_array2d)
  moreover from assms(1,2) have "rhs_nonneg t0" by (rule build_tableau_rhs_nonneg)
  ultimately have "rhs_nonneg t" using visits_invariant [OF assms(3)] by simp
  then show ?thesis by (simp add: rhs_nonneg_iff)
qed


theorem feasibility_invariant_witness:
  "build_tableau [1] [[2], [1]] [8, 6] = Inr [[2, 8], [1, 6], [1, 0]] \<and>
   list_all (\<lambda>x. 0 \<le> x) [8, 6 :: real] \<and>
   visits 1000 (0, [[2, 8], [1, 6], [1, 0]]) (1, [[1, 4], [0, 2], [0, - 4]]) \<and>
   0 \<le> last ([[1, 4], [0, 2], [0, - 4 :: real]] ! 0) \<and>
   0 \<le> last ([[1, 4], [0, 2], [0, - 4 :: real]] ! 1)"
proof -
  let ?t0 = "[[2, 8], [1, 6], [1, 0]] :: tableau"
  let ?t1 = "[[1, 4], [0, 2], [0, - 4]] :: tableau"
  have b: "build_tableau [1] [[2], [1]] [8, 6] = Inr ?t0" by code_simp
  have p: "list_all (\<lambda>x. 0 \<le> x) [8, 6 :: real]" by simp
  have "continue ?t0" by code_simp
  moreover have "int 0 < 1000" by simp
  moreover have "find_pivot ?t0 = Inr (Some 0, Some 0)" by code_simp
  moreover have "pivot ?t0 = Inr ?t1" by code_simp
  ultimately have v: "visits 1000 (0, ?t0) (Suc 0, ?t1)"
    by (rule visits_pivot [OF visits_here])
  from feasibility_invariant [OF b p v]
  have "0 \<le> last (?t1 ! 0) \<and> 0 \<le> last (?t1 ! 1)" by simp
  with b p v show ?thesis by simp
qed

subsection \<open>C7: the objective value never decreases\<close>

text \<open>
  Claim C7: for an input whose \<open>b\<close> has no negative entry, the objective value (the
  negation of the last entry of the objective row) in a state the loop of \<^verbatim>\<open>solve\<close>
  reaches is at most the objective value in every state it reaches later.
\<close>

theorem objective_monotone:
  assumes "build_tableau c A b = Inr t0" and "list_all (\<lambda>x. 0 \<le> x) b"
    and "visits max_iters (0, t0) (k, t)" and "visits max_iters (k, t) (k', t')"
  shows "objective_value t \<le> objective_value t'"
proof -
  from assms(1) have "array2d t0" by (rule build_tableau_array2d)
  moreover from assms(1,2) have "rhs_nonneg t0" by (rule build_tableau_rhs_nonneg)
  ultimately have "array2d t" "rhs_nonneg t" using visits_invariant [OF assms(3)] by simp_all
  with visits_objective [OF assms(4)] show ?thesis by simp
qed


theorem objective_monotone_witness:
  "build_tableau [1] [[2], [1]] [8, 6] = Inr [[2, 8], [1, 6], [1, 0]] \<and>
   list_all (\<lambda>x. 0 \<le> x) [8, 6 :: real] \<and>
   visits 1000 (0, [[2, 8], [1, 6], [1, 0]]) (0, [[2, 8], [1, 6], [1, 0]]) \<and>
   visits 1000 (0, [[2, 8], [1, 6], [1, 0]]) (1, [[1, 4], [0, 2], [0, - 4]]) \<and>
   objective_value [[2, 8], [1, 6], [1, 0]] \<le> objective_value [[1, 4], [0, 2], [0, - 4]] \<and>
   objective_value [[2, 8], [1, 6], [1, 0]] = 0 \<and>
   objective_value [[1, 4], [0, 2], [0, - 4]] = 4"
proof -
  let ?t0 = "[[2, 8], [1, 6], [1, 0]] :: tableau"
  let ?t1 = "[[1, 4], [0, 2], [0, - 4]] :: tableau"
  have b: "build_tableau [1] [[2], [1]] [8, 6] = Inr ?t0" by code_simp
  have p: "list_all (\<lambda>x. 0 \<le> x) [8, 6 :: real]" by simp
  have v0: "visits 1000 (0, ?t0) (0, ?t0)" by (rule visits_here)
  have "continue ?t0" by code_simp
  moreover have "int 0 < 1000" by simp
  moreover have "find_pivot ?t0 = Inr (Some 0, Some 0)" by code_simp
  moreover have "pivot ?t0 = Inr ?t1" by code_simp
  ultimately have v: "visits 1000 (0, ?t0) (Suc 0, ?t1)"
    by (rule visits_pivot [OF visits_here])
  have o: "objective_value ?t0 = 0" "objective_value ?t1 = 4"
    by (simp_all add: objective_value_def)
  from objective_monotone [OF b p v0 v] b p v0 v o show ?thesis by simp
qed

subsection \<open>C8: the objective row at an optimal exit\<close>

text \<open>
  Claim C8: when \<^verbatim>\<open>solve\<close> returns without having printed anything (the loop was left
  by its condition before the counter reached \<^verbatim>\<open>max_iters\<close>), no entry of the objective
  row of the returned tableau, right-hand side excluded, is strictly positive; a solution
  and the objective value are returned.
\<close>

theorem optimal_objective_row_nonpositive:
  assumes "solve c A b max_iters = Inr ((t, sol, v), [])"
  shows "(\<forall>x\<in>set (obj_row t). x \<le> 0) \<and> sol \<noteq> None \<and> v = Some (objective_value t)"
proof -
  from assms obtain t0 where st: "solve_tableau max_iters t0 = Inr ((t, sol, v), [])"
    by (auto simp: solve_def split: sum.splits)
  then obtain k where lp: "solve_loop max_iters 0 t0 = Inr (Loop_done k t)"
    and k: "\<not> max_iters \<le> int k" and sv: "sol \<noteq> None" "v = Some (objective_value t)"
    by (auto simp: solve_tableau_def split: sum.splits loop_exit.splits if_splits)
  from solve_loop_done [OF lp] k have "\<not> continue t" by simp
  then have "\<forall>x\<in>set (obj_row t). x \<le> 0"
    by (auto simp: continue_def list_ex_iff not_less)
  with sv show ?thesis by simp
qed


theorem optimal_objective_row_nonpositive_witness:
  "solve [1] [[2], [1]] [8, 6] 1000 =
     Inr (([[1, 4], [0, 2], [0, - 4]], Some [(0, 4)], Some 4), []) \<and>
   obj_row [[1, 4], [0, 2], [0, - 4]] = [0] \<and>
   list_all (\<lambda>x. x \<le> 0) (obj_row [[1, 4], [0, 2], [0, - 4]])"
proof -
  have h: "solve [1] [[2], [1]] [8, 6] 1000 =
     Inr (([[1, 4], [0, 2], [0, - 4]], Some [(0, 4)], Some 4), [])"
    by code_simp
  from optimal_objective_row_nonpositive [OF h]
  have "list_all (\<lambda>x. x \<le> 0) (obj_row [[1, 4], [0, 2], [0, - 4]])"
    by (simp add: list_all_iff)
  moreover have "obj_row [[1, 4], [0, 2], [0, - 4]] = [0]" by (simp add: obj_row_def)
  ultimately show ?thesis using h by simp
qed

subsection \<open>C9: the value of a basic column\<close>

text \<open>
  Claim C9: a column that passes the basic-column predicate is listed with the right-hand
  side of the constraint row holding its unit entry. The source does not always do so:
  \<^verbatim>\<open>_primal_solution\<close> looks for the row with \<^verbatim>\<open>np.argmax(np.abs(col))\<close> over the whole
  column, objective row included, where \<^verbatim>\<open>_is_pivot_col\<close> uses the constraint part only.
  For \<open>c = [2, -3]\<close>, \<open>A = [[1, 0], [0, 1]]\<close>, \<open>b = [4, 5]\<close> the final tableau has the
  column \<open>[0, 1, -3]\<close> at index 1: it passes the predicate, the row of its unit entry has
  right-hand side 5, and \<^verbatim>\<open>solve\<close> lists the variable with \<open>-8\<close>, the last entry of the
  objective row. (Which columns are listed is as the claim says: lemma
  \<open>primal_cols_columns\<close>.)
\<close>

theorem basic_column_value_from_objective_row:
  "solve [2, - 3] [[1, 0], [0, 1]] [4, 5] 1000 =
     Inr (([[1, 0, 4], [0, 1, 5], [0, - 3, - 8]], Some [(0, 4), (1, - 8)], Some 8), []) \<and>
   is_pivot_col (column [[1, 0, 4], [0, 1, 5], [0, - 3, - 8]] 1) = Inr True \<and>
   last ([[1, 0, 4], [0, 1, 5], [0, - 3, - 8 :: real]] ! 1) = 5"
  by code_simp

subsection \<open>C10: the pivot entry is positive\<close>

text \<open>
  Claim C10: whenever \<^verbatim>\<open>_find_pivot\<close> returns a pair with both components defined, the
  row is a constraint row, the column is a column of the objective row, and the tableau
  entry there is strictly positive, so the division in \<^verbatim>\<open>_pivot\<close> is by a non-zero
  number; \<^verbatim>\<open>_pivot\<close> then pivots at that position.
\<close>

theorem pivot_entry_positive:
  assumes "find_pivot t = Inr (Some r, Some c)"
  shows "0 < t ! r ! c \<and> t ! r ! c \<noteq> 0 \<and> r < length t - 1 \<and> c < length (obj_row t) \<and>
         pivot t = Inr (pivot_at r c t)"
proof -
  from find_pivot_pair [OF assms] have "0 < t ! r ! c" "r < length t - 1"
    "entering_col (obj_row t) = Inr c" by simp_all
  moreover from entering_col_positive [OF this(3)] have "c < length (obj_row t)" by simp
  ultimately show ?thesis using pivot_pair [OF assms] by simp
qed


theorem pivot_entry_positive_witness:
  "find_pivot [[2, 8], [- 1, 3], [1, 4], [1, 0]] = Inr (Some 0, Some 0) \<and>
   (0::real) < [[2, 8], [- 1, 3], [1, 4], [1, 0]] ! 0 ! 0 \<and>
   pivot [[2, 8], [- 1, 3], [1, 4], [1, 0]] =
     Inr (pivot_at 0 0 [[2, 8], [- 1, 3], [1, 4], [1, 0]])"
proof -
  have h: "find_pivot [[2, 8], [- 1, 3], [1, 4], [1, 0]] = Inr (Some 0, Some 0)"
    by code_simp
  from pivot_entry_positive [OF h] h show ?thesis by simp
qed

end
